theory Spec2Isabelle
  imports Main "HOL-Library.Sublist" "HOL-Library.AList"
begin

section \<open>Text: whitespace, case, trimming\<close>

text \<open>
  A Python \<open>str\<close> is modelled as a \<open>string\<close>; a \<open>char\<close> stands for a code point
  below 256. \<open>is_space\<close> is the whitespace class shared by \<open>str.strip()\<close>,
  \<open>str.isspace()\<close> and the regular expression class \<open>\s\<close> on that range;
  \<open>lower\<close> is \<open>str.lower()\<close> on that range.
\<close>

definition nl :: char where
  "nl = CHR 0x0A"

definition space_chars :: "char list" where
  "space_chars = [CHR 0x09, CHR 0x0A, CHR 0x0B, CHR 0x0C, CHR 0x0D,
                  CHR 0x1C, CHR 0x1D, CHR 0x1E, CHR 0x1F, CHR 0x20, CHR 0x85, CHR 0xA0]"

definition is_space :: "char \<Rightarrow> bool" where
  "is_space c = (c \<in> set space_chars)"

definition upper_chars :: "char list" where
  "upper_chars = ''ABCDEFGHIJKLMNOPQRSTUVWXYZ'' @
     [CHR 0xC0, CHR 0xC1, CHR 0xC2, CHR 0xC3, CHR 0xC4, CHR 0xC5, CHR 0xC6, CHR 0xC7,
      CHR 0xC8, CHR 0xC9, CHR 0xCA, CHR 0xCB, CHR 0xCC, CHR 0xCD, CHR 0xCE, CHR 0xCF,
      CHR 0xD0, CHR 0xD1, CHR 0xD2, CHR 0xD3, CHR 0xD4, CHR 0xD5, CHR 0xD6,
      CHR 0xD8, CHR 0xD9, CHR 0xDA, CHR 0xDB, CHR 0xDC, CHR 0xDD, CHR 0xDE]"

definition lower_chars :: "char list" where
  "lower_chars = ''abcdefghijklmnopqrstuvwxyz'' @
     [CHR 0xE0, CHR 0xE1, CHR 0xE2, CHR 0xE3, CHR 0xE4, CHR 0xE5, CHR 0xE6, CHR 0xE7,
      CHR 0xE8, CHR 0xE9, CHR 0xEA, CHR 0xEB, CHR 0xEC, CHR 0xED, CHR 0xEE, CHR 0xEF,
      CHR 0xF0, CHR 0xF1, CHR 0xF2, CHR 0xF3, CHR 0xF4, CHR 0xF5, CHR 0xF6,
      CHR 0xF8, CHR 0xF9, CHR 0xFA, CHR 0xFB, CHR 0xFC, CHR 0xFD, CHR 0xFE]"

definition lower_char :: "char \<Rightarrow> char" where
  "lower_char c =
     (case map_of (zip upper_chars lower_chars) c of Some l \<Rightarrow> l | None \<Rightarrow> c)"

definition lower :: "string \<Rightarrow> string" where
  "lower s = map lower_char s"

definition lstrip :: "string \<Rightarrow> string" where
  "lstrip s = dropWhile is_space s"

definition rstrip :: "string \<Rightarrow> string" where
  "rstrip s = rev (dropWhile is_space (rev s))"

definition strip :: "string \<Rightarrow> string" where
  "strip s = rstrip (lstrip s)"

section \<open>Regular expressions as used by the scraper\<close>

text \<open>
  The four patterns of \<open>scrape_article\<close> are sequences of single-character atoms, each
  taken once, under a greedy star (\<open>\s*\<close>) or under a lazy star (\<open>.*?\<close>).
  \<open>match_here\<close> is the backtracking matcher of Python's \<open>re\<close> anchored at the start
  of its argument: it returns the text left after the first match in priority order.
  \<open>re_sub\<close> is \<open>re.sub(pattern, repl, s)\<close>: leftmost, non-overlapping matches,
  scanning from left to right.
\<close>

datatype atom =
    Lit char      \<comment> \<open>a literal character, no flags\<close>
  | LitI char     \<comment> \<open>a literal character under \<open>re.IGNORECASE\<close>\<close>
  | AnyChar       \<comment> \<open>\<open>.\<close> under \<open>re.DOTALL\<close>\<close>
  | Space         \<comment> \<open>\<open>\s\<close>\<close>

fun atom_ok :: "atom \<Rightarrow> char \<Rightarrow> bool" where
  "atom_ok (Lit a) c = (c = a)"
| "atom_ok (LitI a) c = (lower_char c = lower_char a)"
| "atom_ok AnyChar c = True"
| "atom_ok Space c = is_space c"

datatype item = One atom | Greedy atom | Lazy atom

fun match_here :: "item list \<Rightarrow> string \<Rightarrow> string option" where
  "match_here [] s = Some s"
| "match_here (One a # r) [] = None"
| "match_here (One a # r) (c # cs) = (if atom_ok a c then match_here r cs else None)"
| "match_here (Greedy a # r) [] = match_here r []"
| "match_here (Greedy a # r) (c # cs) =
     (if atom_ok a c
      then (case match_here (Greedy a # r) cs of
              Some t \<Rightarrow> Some t
            | None \<Rightarrow> match_here r (c # cs))
      else match_here r (c # cs))"
| "match_here (Lazy a # r) [] = match_here r []"
| "match_here (Lazy a # r) (c # cs) =
     (case match_here r (c # cs) of
        Some t \<Rightarrow> Some t
      | None \<Rightarrow> (if atom_ok a c then match_here (Lazy a # r) cs else None))"

text \<open>
  A match that consumes nothing is replaced and the scan moves one character on; none of
  the scraper's patterns can match the empty string (\<open>ad_pattern_consumes\<close>,
  \<open>blank_pat_consumes\<close> below), so that branch is never taken by them.
\<close>

fun re_sub :: "item list \<Rightarrow> string \<Rightarrow> string \<Rightarrow> string" where
  "re_sub p repl [] = (case match_here p [] of Some t \<Rightarrow> repl | None \<Rightarrow> [])"
| "re_sub p repl (c # cs) =
     (case match_here p (c # cs) of
        None \<Rightarrow> c # re_sub p repl cs
      | Some t \<Rightarrow>
          if length t < Suc (length cs) then repl @ re_sub p repl t
          else repl @ c # re_sub p repl cs)"

text \<open>Whether a pattern matches at some position of a text.\<close>

fun has_match :: "item list \<Rightarrow> string \<Rightarrow> bool" where
  "has_match p [] = (match_here p [] \<noteq> None)"
| "has_match p (c # cs) = (match_here p (c # cs) \<noteq> None \<or> has_match p cs)"

definition lit_i :: "string \<Rightarrow> item list" where
  "lit_i s = map (\<lambda>c. One (LitI c)) s"

definition ad_patterns :: "item list list" where
  "ad_patterns =
     [lit_i ''How relevant is this ad to you?'' @ [Lazy AnyChar] @ lit_i ''Other'',
      lit_i ''Video player was slow to load content'' @ [Lazy AnyChar] @ lit_i ''Other'',
      lit_i ''Advertisement'' @ [Greedy Space]]"

definition remove_ads :: "string \<Rightarrow> string" where
  "remove_ads text = fold (\<lambda>pattern t. re_sub pattern [] t) ad_patterns text"

definition blank_pat :: "item list" where
  "blank_pat = [One (Lit nl), Greedy Space, One (Lit nl)]"

definition collapse_blank_lines :: "string \<Rightarrow> string" where
  "collapse_blank_lines t = re_sub blank_pat [nl, nl] t"

section \<open>Data model\<close>

text \<open>
  Python values held in the article dictionaries, dictionaries as association lists in
  insertion order, and feed entries as dictionaries of strings. An exception is a value.
\<close>

datatype pyval = PNone | PStr string | PList "string list"

type_synonym pydict = "(string \<times> pyval) list"

type_synonym entry = "(string \<times> string) list"

datatype exn = Exception string

definition entry_get :: "entry \<Rightarrow> string \<Rightarrow> string \<Rightarrow> string" where
  "entry_get e k d = (case map_of e k of Some v \<Rightarrow> v | None \<Rightarrow> d)"

definition dict_get :: "pydict \<Rightarrow> string \<Rightarrow> pyval \<Rightarrow> pyval" where
  "dict_get d k dflt = (case map_of d k of Some v \<Rightarrow> v | None \<Rightarrow> dflt)"

definition dict_set :: "pydict \<Rightarrow> string \<Rightarrow> pyval \<Rightarrow> pydict" where
  "dict_set d k v = AList.update k v d"

fun py_len :: "pyval \<Rightarrow> exn + nat" where
  "py_len (PStr s) = Inr (length s)"
| "py_len (PList l) = Inr (length l)"
| "py_len PNone = Inl (Exception ''TypeError'')"

text \<open>\<open>xs[:k]\<close>: a negative \<open>k\<close> counts from the end.\<close>

definition slice_to :: "'a list \<Rightarrow> int \<Rightarrow> 'a list" where
  "slice_to xs k = (if 0 \<le> k then take (nat k) xs else take (length xs - nat (- k)) xs)"

text \<open>
  The \<open>Article\<close> object of the \<open>newspaper\<close> library after \<open>download()\<close> and
  \<open>parse()\<close>; \<open>art_summary\<close> and \<open>art_keywords\<close> are \<open>None\<close> when the object
  has no such attribute; \<open>art_publish_date\<close> holds the \<open>isoformat()\<close> of the date.
\<close>

record article_obj =
  art_title :: string
  art_authors :: "string list"
  art_publish_date :: "string option"
  art_text :: string
  art_summary :: "string option"
  art_keywords :: "string list option"
  art_top_image :: string

text \<open>
  Everything outside the program: what \<open>feedparser.parse(url)\<close> returns (its entries)
  or raises, what \<open>download()\<close> and \<open>parse()\<close> yield or raise for a URL, what
  \<open>nlp()\<close> does to the object and whether it raises, and the successive readings of
  \<open>datetime.now().isoformat()\<close>. The number of readings taken so far is threaded
  through the program as its clock state.
\<close>

record world =
  feedparser_parse :: "string \<Rightarrow> exn + entry list"
  download_parse :: "string \<Rightarrow> exn + article_obj"
  nlp :: "article_obj \<Rightarrow> exn option \<times> article_obj"
  now_isoformat :: "nat \<Rightarrow> string"

definition NEWS_SOURCES :: "(string \<times> (string \<times> string) list) list" where
  "NEWS_SOURCES =
     [(''CNN'', [(''rss'', ''http://rss.cnn.com/rss/cnn_topstories.rss''),
                 (''world'', ''http://rss.cnn.com/rss/cnn_world.rss'')]),
      (''BBC News'', [(''rss'', ''http://feeds.bbci.co.uk/news/rss.xml''),
                      (''world'', ''http://feeds.bbci.co.uk/news/world/rss.xml'')]),
      (''Al Jazeera'', [(''rss'', ''https://www.aljazeera.com/xml/rss/all.xml'')]),
      (''NPR'', [(''rss'', ''https://feeds.npr.org/1001/rss.xml'')]),
      (''The Guardian'', [(''rss'', ''https://www.theguardian.com/world/rss'')])]"

section \<open>scrape_article\<close>

text \<open>
  Lines 91 to 103: the loop over \<open>ad_patterns\<close> rewrites \<open>text\<close> and \<open>summary\<close>
  side by side, then each is trimmed and the result has its blank lines collapsed.
\<close>

definition post_process :: "string \<times> string \<Rightarrow> string \<times> string" where
  "post_process ts =
     (let (text, summary) =
            fold (\<lambda>pattern (text, summary).
                    (re_sub pattern [] text, re_sub pattern [] summary)) ad_patterns ts
      in (re_sub blank_pat [nl, nl] (strip text), re_sub blank_pat [nl, nl] (strip summary)))"

definition scrape_article :: "world \<Rightarrow> string \<Rightarrow> nat \<Rightarrow> pydict option \<times> nat" where
  "scrape_article w url clock =
     (case download_parse w url of
        Inl e \<Rightarrow> (None, clock)
      | Inr parsed \<Rightarrow>
          (let article = snd (nlp w parsed);
               text = art_text article;
               summary = (case art_summary article of Some s \<Rightarrow> s | None \<Rightarrow> []);
               (text, summary) = post_process (text, summary)
           in (Some [(''url'', PStr url),
                     (''title'', PStr (art_title article)),
                     (''authors'', PList (art_authors article)),
                     (''publish_date'',
                        (case art_publish_date article of Some d \<Rightarrow> PStr d | None \<Rightarrow> PNone)),
                     (''text'', PStr text),
                     (''summary'', PStr summary),
                     (''keywords'',
                        PList (case art_keywords article of Some k \<Rightarrow> k | None \<Rightarrow> [])),
                     (''top_image'', PStr (art_top_image article)),
                     (''scraped_at'', PStr (now_isoformat w clock))],
               Suc clock)))"

section \<open>search_rss_feeds\<close>

text \<open>Lines 156 to 162: the keyword filter over one feed's entries.\<close>

definition entry_matches :: "string \<Rightarrow> entry \<Rightarrow> bool" where
  "entry_matches keyword_lower e =
     (let title = lower (entry_get e ''title'' []);
          summary = lower (entry_get e ''summary'' [])
      in sublist keyword_lower title \<or> sublist keyword_lower summary)"

definition matching_entries :: "string \<Rightarrow> entry list \<Rightarrow> entry list" where
  "matching_entries keyword_lower entries =
     fold (\<lambda>e matching. if entry_matches keyword_lower e then matching @ [e] else matching)
          entries []"

text \<open>
  Lines 167 to 186: the loop over the selected entries of one feed. It returns the
  source's articles so far, or the exception that left the loop, and the clock state.
\<close>

fun scrape_entries ::
  "world \<Rightarrow> string \<Rightarrow> string \<Rightarrow> int \<Rightarrow> entry list \<Rightarrow> pydict list \<Rightarrow> nat
     \<Rightarrow> (exn + pydict list) \<times> nat" where
  "scrape_entries w source_name keyword mx [] source_articles clock =
     (Inr source_articles, clock)"
| "scrape_entries w source_name keyword mx (e # es) source_articles clock =
     (if mx \<le> int (length source_articles) then (Inr source_articles, clock)
      else
        (let url = entry_get e ''link'' [] in
         if url = [] then scrape_entries w source_name keyword mx es source_articles clock
         else
           (case scrape_article w url clock of
              (None, clock') \<Rightarrow>
                scrape_entries w source_name keyword mx es source_articles clock'
            | (Some article, clock') \<Rightarrow>
                if article = []
                then scrape_entries w source_name keyword mx es source_articles clock'
                else
                  (case py_len (dict_get article ''text'' (PStr [])) of
                     Inl x \<Rightarrow> (Inl x, clock')
                   | Inr n \<Rightarrow>
                       if 200 < n
                       then
                         (let article = dict_set article ''source'' (PStr source_name);
                              article = dict_set article ''search_keyword'' (PStr keyword);
                              article = dict_set article ''rss_title''
                                          (PStr (entry_get e ''title'' []));
                              article = dict_set article ''rss_published''
                                          (PStr (entry_get e ''published'' []))
                          in scrape_entries w source_name keyword mx es
                               (source_articles @ [article]) clock')
                       else
                         scrape_entries w source_name keyword mx es source_articles clock'))))"

text \<open>Lines 145 to 186: the loop over the feeds of one source.\<close>

fun scan_feeds ::
  "world \<Rightarrow> string \<Rightarrow> string \<Rightarrow> int \<Rightarrow> (string \<times> string) list \<Rightarrow> pydict list \<Rightarrow> nat
     \<Rightarrow> (exn + pydict list) \<times> nat" where
  "scan_feeds w source_name keyword mx [] source_articles clock =
     (Inr source_articles, clock)"
| "scan_feeds w source_name keyword mx ((feed_name, feed_url) # feeds) source_articles clock =
     (if mx \<le> int (length source_articles) then (Inr source_articles, clock)
      else
        (case feedparser_parse w feed_url of
           Inl x \<Rightarrow> (Inl x, clock)
         | Inr entries \<Rightarrow>
             if entries = []
             then scan_feeds w source_name keyword mx feeds source_articles clock
             else
               (case scrape_entries w source_name keyword mx
                       (slice_to (matching_entries (lower keyword) entries)
                                 (mx - int (length source_articles)))
                       source_articles clock of
                  (Inl x, clock') \<Rightarrow> (Inl x, clock')
                | (Inr source_articles', clock') \<Rightarrow>
                    scan_feeds w source_name keyword mx feeds source_articles' clock')))"

text \<open>
  Lines 136 to 193: the loop over the sources. Its state is \<open>all_articles\<close>, the names
  of the sources whose \<open>except\<close> branch ran (the printed error lines), and the clock.
\<close>

fun search_sources ::
  "world \<Rightarrow> string \<Rightarrow> int \<Rightarrow> (string \<times> (string \<times> string) list) list
     \<Rightarrow> pydict list \<times> string list \<times> nat \<Rightarrow> pydict list \<times> string list \<times> nat" where
  "search_sources w keyword mx [] st = st"
| "search_sources w keyword mx ((source_name, feeds) # sources) (all_articles, errors, clock) =
     (case scan_feeds w source_name keyword mx feeds [] clock of
        (Inl x, clock') \<Rightarrow>
          search_sources w keyword mx sources (all_articles, errors @ [source_name], clock')
      | (Inr source_articles, clock') \<Rightarrow>
          search_sources w keyword mx sources (all_articles @ source_articles, errors, clock'))"

definition search_rss_feeds :: "world \<Rightarrow> string \<Rightarrow> int \<Rightarrow> nat \<Rightarrow> pydict list" where
  "search_rss_feeds w keyword max_articles_per_source clock =
     fst (search_sources w keyword max_articles_per_source NEWS_SOURCES ([], [], clock))"

section \<open>Notions used to state the properties\<close>

text \<open>The length of the body text a record carries, and the records of one source.\<close>

definition body_length :: "pydict \<Rightarrow> nat" where
  "body_length a = (case map_of a ''text'' of Some (PStr t) \<Rightarrow> length t | _ \<Rightarrow> 0)"

definition records_of :: "string \<Rightarrow> pydict list \<Rightarrow> pydict list" where
  "records_of source_name articles =
     filter (\<lambda>a. dict_get a ''source'' PNone = PStr source_name) articles"

text \<open>A record of a source with a body of more than 200 characters.\<close>

definition accepted :: "string \<Rightarrow> pydict \<Rightarrow> bool" where
  "accepted source_name a \<longleftrightarrow>
     dict_get a ''source'' PNone = PStr source_name \<and> 200 < body_length a"


text \<open>Lines 179 to 182: the four fields added to an accepted article.\<close>

definition tagged :: "string \<Rightarrow> string \<Rightarrow> entry \<Rightarrow> pydict \<Rightarrow> pydict" where
  "tagged source_name keyword e article =
     dict_set (dict_set (dict_set (dict_set article ''source'' (PStr source_name))
       ''search_keyword'' (PStr keyword))
       ''rss_title'' (PStr (entry_get e ''title'' [])))
       ''rss_published'' (PStr (entry_get e ''published'' []))"

text \<open>
  What each source hands to \<open>all_articles\<close>, source by source in the order of the
  configuration: the list its feed loop returned, or nothing when it raised.
\<close>

fun source_blocks ::
  "world \<Rightarrow> string \<Rightarrow> int \<Rightarrow> (string \<times> (string \<times> string) list) list \<Rightarrow> nat
     \<Rightarrow> pydict list list" where
  "source_blocks w keyword mx [] clock = []"
| "source_blocks w keyword mx ((source_name, feeds) # sources) clock =
     (case scan_feeds w source_name keyword mx feeds [] clock of
        (Inl x, clock') \<Rightarrow> [] # source_blocks w keyword mx sources clock'
      | (Inr source_articles, clock') \<Rightarrow>
          source_articles # source_blocks w keyword mx sources clock')"

text \<open>A record without its \<open>scraped_at\<close> field.\<close>

definition without_time :: "pydict \<Rightarrow> pydict" where
  "without_time a = AList.delete ''scraped_at'' a"

section \<open>Sample environments\<close>

text \<open>
  Small environments used to run the program on concrete inputs: every page has a body of
  \<open>n\<close> letters, the first feed of CNN and of BBC News carry one entry each, the feeds
  listed in \<open>failing\<close> raise, and every clock reading is \<open>stamp\<close>.
  \<open>sample_record\<close> is the dictionary \<open>scrape_article\<close> returns there for the
  entry's link (\<open>scrape_article_sample\<close> below).
\<close>

definition sample_entry :: entry where
  "sample_entry =
     [(''title'', ''Election night''), (''summary'', ''Results''),
      (''link'', ''http://example.org/story''), (''published'', ''Mon, 01 Jan 2024'')]"

definition sample_page :: "nat \<Rightarrow> article_obj" where
  "sample_page n =
     \<lparr>art_title = ''Story'', art_authors = [], art_publish_date = None,
      art_text = replicate n (CHR ''x''), art_summary = Some [], art_keywords = Some [],
      art_top_image = []\<rparr>"

definition sample_record :: "nat \<Rightarrow> string \<Rightarrow> pydict" where
  "sample_record n stamp =
     [(''url'', PStr ''http://example.org/story''), (''title'', PStr ''Story''),
      (''authors'', PList []), (''publish_date'', PNone),
      (''text'', PStr (replicate n (CHR ''x''))), (''summary'', PStr []),
      (''keywords'', PList []), (''top_image'', PStr []), (''scraped_at'', PStr stamp)]"

definition sample_world :: "nat \<Rightarrow> string list \<Rightarrow> string \<Rightarrow> world" where
  "sample_world n failing stamp =
     \<lparr>feedparser_parse =
        (\<lambda>url. if url \<in> set failing then Inl (Exception ''URLError'')
               else if url \<in> set [''http://rss.cnn.com/rss/cnn_topstories.rss'',
                                    ''http://feeds.bbci.co.uk/news/rss.xml'']
               then Inr [sample_entry] else Inr []),
      download_parse = (\<lambda>url. Inr (sample_page n)),
      nlp = (\<lambda>a. (None, a)),
      now_isoformat = (\<lambda>k. stamp)\<rparr>"

section \<open>Properties of the matcher and of the text clean-up\<close>

lemma is_space_nl [simp]: "is_space nl"
  by (simp add: is_space_def space_chars_def nl_def)

lemma match_here_suffix: "match_here p s = Some t \<Longrightarrow> suffix t s"
  by (induction p s arbitrary: t rule: match_here.induct)
     (auto split: if_splits option.splits intro: suffix_ConsI)

lemma match_here_length: "match_here p s = Some t \<Longrightarrow> length t \<le> length s"
  by (simp add: match_here_suffix suffix_length_le)

lemma match_here_One_consumes:
  "match_here (One a # r) s = Some t \<Longrightarrow> length t < length s"
  by (cases s) (auto split: if_splits dest: match_here_length)

subsection \<open>The blank-line pattern\<close>

text \<open>
  After the first line break, the greedy \<open>\s*\<close> runs to the end of the whitespace and
  gives characters back until a line break follows: the match ends at the last line break
  of the whitespace run, and fails when the run holds none.
\<close>

lemma greedy_nl_None:
  "match_here [Greedy Space, One (Lit nl)] s = None \<longleftrightarrow> nl \<notin> set (takeWhile is_space s)"
  by (induction s) (auto split: option.splits)

lemma greedy_nl_Some:
  "match_here [Greedy Space, One (Lit nl)] s = Some t \<Longrightarrow>
     nl \<notin> set (takeWhile is_space t) \<and>
     (\<exists>m. s = m @ nl # t \<and> (\<forall>c\<in>set m. is_space c))"
proof (induction s arbitrary: t)
  case Nil
  then show ?case by simp
next
  case (Cons c cs)
  show ?case
  proof (cases "match_here [Greedy Space, One (Lit nl)] cs")
    case None
    with Cons.prems have "c = nl" "t = cs"
      by (auto split: if_splits)
    with None show ?thesis
      by (auto simp: greedy_nl_None)
  next
    case (Some u)
    with Cons.prems have sp: "is_space c" and "u = t"
      by (auto split: if_splits)
    with Some Cons.IH obtain m where "nl \<notin> set (takeWhile is_space t)"
      "cs = m @ nl # t" "\<forall>c\<in>set m. is_space c"
      by blast
    with sp show ?thesis
      by (auto intro: exI [of _ "c # m"])
  qed
qed

lemma match_blank_not_nl: "c \<noteq> nl \<Longrightarrow> match_here blank_pat (c # cs) = None"
  by (simp add: blank_pat_def)

lemma match_blank_nl:
  "match_here blank_pat (nl # cs) = match_here [Greedy Space, One (Lit nl)] cs"
  by (simp add: blank_pat_def)

lemma match_blank_Nil: "match_here blank_pat [] = None"
  by (simp add: blank_pat_def)

lemma collapse_Nil [simp]: "collapse_blank_lines [] = []"
  by (simp add: collapse_blank_lines_def match_blank_Nil)

lemma collapse_not_nl [simp]:
  "c \<noteq> nl \<Longrightarrow> collapse_blank_lines (c # cs) = c # collapse_blank_lines cs"
  by (simp add: collapse_blank_lines_def match_blank_not_nl)

lemma collapse_nl_None:
  "nl \<notin> set (takeWhile is_space cs) \<Longrightarrow>
     collapse_blank_lines (nl # cs) = nl # collapse_blank_lines cs"
proof -
  assume "nl \<notin> set (takeWhile is_space cs)"
  then have "match_here [Greedy Space, One (Lit nl)] cs = None"
    by (simp add: greedy_nl_None)
  then show ?thesis
    by (simp add: collapse_blank_lines_def match_blank_nl)
qed

lemma collapse_nl_Some:
  assumes "match_here [Greedy Space, One (Lit nl)] cs = Some t"
  shows "collapse_blank_lines (nl # cs) = nl # nl # collapse_blank_lines t"
proof -
  have "length t \<le> length cs"
    using assms by (rule match_here_length)
  then show ?thesis
    using assms by (simp add: collapse_blank_lines_def match_blank_nl)
qed

lemma collapse_copy:
  "nl \<notin> set u \<Longrightarrow> collapse_blank_lines (u @ y) = u @ collapse_blank_lines y"
  by (induction u) auto

lemma collapse_hd:
  "\<not> is_space c \<Longrightarrow> collapse_blank_lines (c # cs) = c # collapse_blank_lines cs"
  by (rule collapse_not_nl) auto

lemma takeWhile_collapse:
  assumes "nl \<notin> set (takeWhile is_space x)"
  shows "takeWhile is_space (collapse_blank_lines x) = takeWhile is_space x"
proof -
  define u y where "u = takeWhile is_space x" and "y = dropWhile is_space x"
  have x: "x = u @ y" by (simp add: u_def y_def)
  have u: "\<forall>c\<in>set u. is_space c" unfolding u_def by (auto dest: set_takeWhileD)
  have y: "y = [] \<or> \<not> is_space (hd y)"
    unfolding y_def by (metis hd_dropWhile)
  have "nl \<notin> set u"
    using assms by (simp add: u_def)
  then have "collapse_blank_lines x = u @ collapse_blank_lines y"
    unfolding x by (rule collapse_copy)
  moreover have "takeWhile is_space (collapse_blank_lines y) = []"
    using y by (cases y) (auto simp: collapse_hd)
  ultimately have "takeWhile is_space (collapse_blank_lines x) = u"
    using u by (simp add: takeWhile_append2)
  then show ?thesis
    by (simp add: u_def)
qed

lemma collapse_idem: "collapse_blank_lines (collapse_blank_lines s) = collapse_blank_lines s"
proof (induction "length s" arbitrary: s rule: less_induct)
  case less
  show ?case
  proof (cases s)
    case Nil
    then show ?thesis by simp
  next
    case (Cons c cs)
    show ?thesis
    proof (cases "c = nl")
      case False
      with Cons less show ?thesis by simp
    next
      case True
      show ?thesis
      proof (cases "match_here [Greedy Space, One (Lit nl)] cs")
        case None
        then have n: "nl \<notin> set (takeWhile is_space cs)"
          by (simp add: greedy_nl_None)
        then have "nl \<notin> set (takeWhile is_space (collapse_blank_lines cs))"
          by (simp add: takeWhile_collapse)
        with n Cons True less show ?thesis
          by (simp add: collapse_nl_None)
      next
        case (Some t)
        from greedy_nl_Some [OF Some] obtain m where
          t: "nl \<notin> set (takeWhile is_space t)" and cs: "cs = m @ nl # t"
          by blast
        have len: "length t < length s"
          using Cons cs by simp
        have n: "nl \<notin> set (takeWhile is_space (collapse_blank_lines t))"
          using t by (simp add: takeWhile_collapse)
        have "match_here [Greedy Space, One (Lit nl)] (nl # collapse_blank_lines t)
                = Some (collapse_blank_lines t)"
          using n by (simp add: greedy_nl_None [symmetric])
        then have "collapse_blank_lines (nl # nl # collapse_blank_lines t)
                = nl # nl # collapse_blank_lines (collapse_blank_lines t)"
          by (rule collapse_nl_Some)
        with Cons True Some len less show ?thesis
          by (simp add: collapse_nl_Some)
      qed
    qed
  qed
qed









lemma prefix_space_count:
  "prefix w x \<Longrightarrow> \<forall>c\<in>set w. is_space c \<Longrightarrow>
     count_list w nl \<le> count_list (takeWhile is_space x) nl"
proof (induction w arbitrary: x)
  case Nil
  then show ?case by simp
next
  case (Cons a w)
  then obtain x' where "x = a # x'" "prefix w x'"
    by (cases x) auto
  with Cons show ?case by auto
qed

lemma nl_bound_Cons:
  assumes "\<forall>w. sublist w x \<longrightarrow> (\<forall>c\<in>set w. is_space c) \<longrightarrow> count_list w nl \<le> k"
    and "count_list (takeWhile is_space (c # x)) nl \<le> k"
  shows "\<forall>w. sublist w (c # x) \<longrightarrow> (\<forall>c\<in>set w. is_space c) \<longrightarrow> count_list w nl \<le> k"
proof (intro allI impI)
  fix w
  assume w: "sublist w (c # x)" "\<forall>c\<in>set w. is_space c"
  then consider "prefix w (c # x)" | "sublist w x"
    by (auto simp: sublist_Cons_right)
  then show "count_list w nl \<le> k"
  proof cases
    case 1
    with w assms(2) prefix_space_count [of w "c # x"] show ?thesis
      by linarith
  next
    case 2
    with w assms(1) show ?thesis by blast
  qed
qed

lemma collapse_nl_bound:
  "\<forall>w. sublist w (collapse_blank_lines s) \<longrightarrow> (\<forall>c\<in>set w. is_space c) \<longrightarrow>
       count_list w nl \<le> 2"
proof (induction "length s" arbitrary: s rule: less_induct)
  case less
  show ?case
  proof (cases s)
    case Nil
    then show ?thesis by simp
  next
    case (Cons c cs)
    have IH: "\<forall>w. sublist w (collapse_blank_lines cs) \<longrightarrow> (\<forall>c\<in>set w. is_space c) \<longrightarrow>
       count_list w nl \<le> 2"
      using less [of cs] Cons by simp
    have "sublist (takeWhile is_space (collapse_blank_lines cs)) (collapse_blank_lines cs)"
      by (simp add: takeWhile_is_prefix prefix_imp_sublist)
    moreover have "\<forall>c\<in>set (takeWhile is_space (collapse_blank_lines cs)). is_space c"
      by (auto dest: set_takeWhileD)
    ultimately have lead: "count_list (takeWhile is_space (collapse_blank_lines cs)) nl \<le> 2"
      using IH by blast
    show ?thesis
    proof (cases "c = nl")
      case False
      then have eq: "collapse_blank_lines s = c # collapse_blank_lines cs"
        using Cons by simp
      have "count_list (takeWhile is_space (c # collapse_blank_lines cs)) nl \<le> 2"
        using lead False by simp
      then show ?thesis
        unfolding eq by (rule nl_bound_Cons [OF IH])
    next
      case True
      show ?thesis
      proof (cases "match_here [Greedy Space, One (Lit nl)] cs")
        case None
        then have n: "nl \<notin> set (takeWhile is_space cs)"
          by (simp add: greedy_nl_None)
        then have "takeWhile is_space (collapse_blank_lines cs) = takeWhile is_space cs"
          by (rule takeWhile_collapse)
        with n have "count_list (takeWhile is_space (nl # collapse_blank_lines cs)) nl \<le> 2"
          by simp
        moreover have eq: "collapse_blank_lines s = nl # collapse_blank_lines cs"
          using n Cons True by (simp add: collapse_nl_None)
        ultimately show ?thesis
          unfolding eq by (intro nl_bound_Cons [OF IH])
      next
        case (Some t)
        from greedy_nl_Some [OF Some] obtain m where
          t: "nl \<notin> set (takeWhile is_space t)" and cs: "cs = m @ nl # t"
          by blast
        have IHt: "\<forall>w. sublist w (collapse_blank_lines t) \<longrightarrow> (\<forall>c\<in>set w. is_space c) \<longrightarrow>
            count_list w nl \<le> 2"
          using less [of t] Cons cs by simp
        have tw: "takeWhile is_space (collapse_blank_lines t) = takeWhile is_space t"
          using t by (rule takeWhile_collapse)
        have 1: "\<forall>w. sublist w (nl # collapse_blank_lines t) \<longrightarrow> (\<forall>c\<in>set w. is_space c) \<longrightarrow>
            count_list w nl \<le> 2"
          using t tw by (intro nl_bound_Cons [OF IHt]) simp
        have 2: "\<forall>w. sublist w (nl # nl # collapse_blank_lines t) \<longrightarrow>
            (\<forall>c\<in>set w. is_space c) \<longrightarrow> count_list w nl \<le> 2"
          using t tw by (intro nl_bound_Cons [OF 1]) simp
        have eq: "collapse_blank_lines s = nl # nl # collapse_blank_lines t"
          using Some Cons True by (simp add: collapse_nl_Some)
        show ?thesis
          unfolding eq by (rule 2)
      qed
    qed
  qed
qed




subsection \<open>Patterns that consume, and removal as a fixed point\<close>

lemma re_sub_no_match: "\<not> has_match p s \<Longrightarrow> re_sub p repl s = s"
  by (induction s) auto

lemma re_sub_length:
  assumes "\<And>s t. match_here p s = Some t \<Longrightarrow> length t < length s"
  shows "length (re_sub p [] s) \<le> length s"
proof (induction "length s" arbitrary: s rule: less_induct)
  case less
  show ?case
  proof (cases s)
    case Nil
    with assms [of "[]"] show ?thesis
      by (auto split: option.splits)
  next
    case (Cons c cs)
    show ?thesis
    proof (cases "match_here p (c # cs)")
      case None
      with Cons less [of cs] show ?thesis by simp
    next
      case (Some t)
      with assms have "length t < length (c # cs)" by blast
      with Some Cons less [of t] show ?thesis by simp
    qed
  qed
qed

lemma re_sub_shorter:
  assumes "\<And>s t. match_here p s = Some t \<Longrightarrow> length t < length s"
    and "has_match p s"
  shows "length (re_sub p [] s) < length s"
  using assms(2)
proof (induction s)
  case Nil
  with assms(1) [of "[]"] show ?case by auto
next
  case (Cons c cs)
  show ?case
  proof (cases "match_here p (c # cs)")
    case None
    with Cons show ?thesis by simp
  next
    case (Some t)
    with assms(1) have "length t < length (c # cs)" by blast
    moreover have "length (re_sub p [] t) \<le> length t"
      using assms(1) by (rule re_sub_length)
    ultimately show ?thesis
      using Some by simp
  qed
qed

lemma fold_re_sub_length:
  assumes "\<And>p s t. p \<in> set ps \<Longrightarrow> match_here p s = Some t \<Longrightarrow> length t < length s"
  shows "length (fold (\<lambda>p t. re_sub p [] t) ps s) \<le> length s"
  using assms
proof (induction ps arbitrary: s)
  case Nil
  then show ?case by simp
next
  case (Cons p ps)
  have "length (fold (\<lambda>p t. re_sub p [] t) ps (re_sub p [] s)) \<le> length (re_sub p [] s)"
    using Cons.prems by (intro Cons.IH) auto
  moreover have "length (re_sub p [] s) \<le> length s"
    using Cons.prems by (intro re_sub_length) auto
  ultimately show ?case by simp
qed

lemma fold_re_sub_fixed:
  assumes "\<And>p s t. p \<in> set ps \<Longrightarrow> match_here p s = Some t \<Longrightarrow> length t < length s"
  shows "fold (\<lambda>p t. re_sub p [] t) ps s = s \<longleftrightarrow> (\<forall>p\<in>set ps. \<not> has_match p s)"
  using assms
proof (induction ps arbitrary: s)
  case Nil
  then show ?case by simp
next
  case (Cons p ps)
  have cons: "\<And>q s t. q \<in> set ps \<Longrightarrow> match_here q s = Some t \<Longrightarrow> length t < length s"
    using Cons.prems by auto
  show ?case
  proof (cases "has_match p s")
    case True
    have "length (re_sub p [] s) < length s"
      using Cons.prems True by (intro re_sub_shorter) auto
    moreover have
      "length (fold (\<lambda>p t. re_sub p [] t) ps (re_sub p [] s)) \<le> length (re_sub p [] s)"
      using cons by (rule fold_re_sub_length)
    ultimately have "fold (\<lambda>p t. re_sub p [] t) (p # ps) s \<noteq> s"
      by auto
    with True show ?thesis by auto
  next
    case False
    then have "re_sub p [] s = s"
      by (rule re_sub_no_match)
    moreover have "fold (\<lambda>p t. re_sub p [] t) ps s = s \<longleftrightarrow> (\<forall>p\<in>set ps. \<not> has_match p s)"
      using cons by (rule Cons.IH)
    ultimately show ?thesis
      using False by simp
  qed
qed

lemma ad_pattern_consumes:
  assumes "p \<in> set ad_patterns" and "match_here p s = Some t"
  shows "length t < length s"
proof -
  from assms(1) obtain a r where "p = One a # r"
    by (auto simp: ad_patterns_def lit_i_def)
  with assms(2) show ?thesis
    by (simp add: match_here_One_consumes)
qed

lemma blank_pat_consumes: "match_here blank_pat s = Some t \<Longrightarrow> length t < length s"
  by (simp add: blank_pat_def match_here_One_consumes)

lemma remove_ads_fixed: "remove_ads s = s \<longleftrightarrow> (\<forall>p\<in>set ad_patterns. \<not> has_match p s)"
  unfolding remove_ads_def by (rule fold_re_sub_fixed) (rule ad_pattern_consumes)

lemma fold_pair:
  "fold (\<lambda>pattern (text, summary). (re_sub pattern [] text, re_sub pattern [] summary)) ps (t, s)
     = (fold (\<lambda>pattern t. re_sub pattern [] t) ps t, fold (\<lambda>pattern t. re_sub pattern [] t) ps s)"
  by (induction ps arbitrary: t s) auto

lemma post_process_eq:
  "post_process (text, summary) =
     (collapse_blank_lines (strip (remove_ads text)),
      collapse_blank_lines (strip (remove_ads summary)))"
  by (simp add: post_process_def fold_pair remove_ads_def collapse_blank_lines_def)

text \<open>
  A run of the removal: literals match in any case, and \<open>.*?\<close> runs across line
  breaks up to the first \<open>Other\<close>.
\<close>

lemma remove_ads_example:
  "remove_ads (''A'' @ [nl] @ ''HOW RELEVANT is this ad to you?'' @ [nl] @ ''Yes'' @ [nl]
      @ ''other'' @ [nl] @ ''B ADVERTISEMENT '' @ [nl] @ ''C'') = ''A'' @ [nl, nl] @ ''B C''"
  by code_simp

section \<open>The claims about the text clean-up\<close>



text \<open>
  C5, as amended. Removing the advertisement patterns is not idempotent: removing a match
  can join the text around it into a new match. A text is left unchanged by the removal
  exactly when none of the three patterns matches at any of its positions; so a second
  application changes nothing exactly when the once-cleaned text holds no match.
\<close>

theorem remove_ads_twice:
  "(remove_ads (remove_ads s) = remove_ads s
      \<longleftrightarrow> (\<forall>p\<in>set ad_patterns. \<not> has_match p (remove_ads s)))
   \<and> (remove_ads s = s \<longleftrightarrow> (\<forall>p\<in>set ad_patterns. \<not> has_match p s))"
  by (simp add: remove_ads_fixed)

lemma remove_ads_sample: "remove_ads ''Advertisement  News'' = ''News''"
  by code_simp

lemma no_match_sample: "\<forall>p\<in>set ad_patterns. \<not> has_match p ''News''"
  by code_simp

theorem remove_ads_twice_witness:
  "remove_ads (remove_ads ''Advertisement  News'') = remove_ads ''Advertisement  News''
   \<and> remove_ads ''News'' = ''News''"
  using remove_ads_twice [of "''Advertisement  News''"] remove_ads_twice [of "''News''"]
    no_match_sample
  by (simp only: remove_ads_sample simp_thms)

theorem remove_ads_not_idempotent:
  "remove_ads (remove_ads ''AdverAdvertisementtisement'') \<noteq> remove_ads ''AdverAdvertisementtisement''"
  by code_simp

text \<open>
  C6. Collapsing blank lines twice is the same as collapsing them once, for every text.
  Three consecutive blank lines, each ended by its line break, would be a stretch of
  whitespace with at least three line breaks; in the output no stretch of whitespace
  holds more than two line breaks.
\<close>

theorem collapse_blank_lines_idempotent_bounded:
  "collapse_blank_lines (collapse_blank_lines s) = collapse_blank_lines s
   \<and> (\<forall>w. sublist w (collapse_blank_lines s) \<longrightarrow> (\<forall>c\<in>set w. is_space c)
          \<longrightarrow> count_list w nl \<le> 2)"
  using collapse_idem collapse_nl_bound by blast

lemma collapse_sample:
  "collapse_blank_lines (''a'' @ [nl, CHR '' '', nl, nl, nl] @ ''b'') = ''a'' @ [nl, nl] @ ''b''"
  by code_simp

theorem collapse_blank_lines_idempotent_bounded_witness:
  "collapse_blank_lines (''a'' @ [nl, CHR '' '', nl, nl, nl] @ ''b'') = ''a'' @ [nl, nl] @ ''b''
   \<and> sublist [nl, nl] (''a'' @ [nl, nl] @ ''b'') \<and> is_space nl
   \<and> count_list [nl, nl] nl \<le> 2"
proof -
  have "sublist [nl, nl] (''a'' @ [nl, nl] @ ''b'')"
    by (rule sublist_appendI)
  moreover have "\<forall>c\<in>set [nl, nl]. is_space c"
    by simp
  ultimately show ?thesis
    using collapse_blank_lines_idempotent_bounded
      [of "''a'' @ [nl, CHR '' '', nl, nl, nl] @ ''b''"]
    unfolding collapse_sample by auto
qed

section \<open>The keyword filter and scrape_article\<close>





lemma scrape_article_Some:
  assumes "scrape_article w url clock = (Some a, clock')"
  shows "a \<noteq> [] \<and> clock' = Suc clock
    \<and> (\<exists>t. map_of a ''text'' = Some (PStr t)) \<and> map_of a ''source'' = None"
  using assms
  by (cases "download_parse w url")
     (auto simp: scrape_article_def Let_def split: prod.splits)

lemma scrape_article_None:
  "scrape_article w url clock = (None, clock') \<Longrightarrow> clock' = clock"
  by (cases "download_parse w url")
     (auto simp: scrape_article_def Let_def split: prod.splits)

lemma tagged_source: "dict_get (tagged name kw e a) ''source'' PNone = PStr name"
  by (simp add: tagged_def dict_get_def dict_set_def update_conv')

lemma tagged_text: "map_of (tagged name kw e a) ''text'' = map_of a ''text''"
  by (simp add: tagged_def dict_set_def update_conv')

lemma body_length_tagged: "body_length (tagged name kw e a) = body_length a"
  by (simp add: body_length_def tagged_text)

section \<open>Invariants of the loops\<close>

lemma scrape_entries_Cons_None:
  assumes "scrape_article w (entry_get e ''link'' []) clock = (None, c)"
  shows "scrape_entries w name kw mx (e # es) arts clock =
     (if mx \<le> int (length arts) then (Inr arts, clock)
      else scrape_entries w name kw mx es arts clock)"
proof -
  have "c = clock"
    using assms by (rule scrape_article_None)
  then show ?thesis
    using assms by (simp add: Let_def)
qed

lemma scrape_entries_Cons_Some:
  assumes "scrape_article w (entry_get e ''link'' []) clock = (Some a, c)"
  shows "scrape_entries w name kw mx (e # es) arts clock =
     (if mx \<le> int (length arts) then (Inr arts, clock)
      else if entry_get e ''link'' [] = [] then scrape_entries w name kw mx es arts clock
      else if 200 < body_length a
           then scrape_entries w name kw mx es (arts @ [tagged name kw e a]) (Suc clock)
           else scrape_entries w name kw mx es arts (Suc clock))"
proof -
  from scrape_article_Some [OF assms]
  obtain t where a: "a \<noteq> []" "c = Suc clock" "map_of a ''text'' = Some (PStr t)"
    by blast
  have len: "py_len (dict_get a ''text'' (PStr [])) = Inr (length t)" "body_length a = length t"
    using a(3) by (simp_all add: dict_get_def body_length_def)
  show ?thesis
    using a(1,2) by (simp add: assms Let_def len tagged_def)
qed

declare scrape_entries.simps(2) [simp del]

lemma accepted_tagged: "200 < body_length a \<Longrightarrow> accepted name (tagged name kw e a)"
  by (simp add: accepted_def tagged_source body_length_tagged)

lemma scrape_entries_inv:
  "\<exists>new. fst (scrape_entries w name kw mx es arts clock) = Inr (arts @ new)
     \<and> (\<forall>a\<in>set new. accepted name a)
     \<and> int (length (arts @ new)) \<le> max mx (int (length arts))"
proof (induction es arbitrary: arts clock)
  case Nil
  show ?case by simp
next
  case (Cons e es)
  let ?url = "entry_get e ''link'' []"
  obtain r c where sa: "scrape_article w ?url clock = (r, c)"
    by (cases "scrape_article w ?url clock")
  consider (stop) "scrape_entries w name kw mx (e # es) arts clock = (Inr arts, clock)"
    | (skip) c' where "scrape_entries w name kw mx (e # es) arts clock =
          scrape_entries w name kw mx es arts c'"
    | (take) a where "\<not> mx \<le> int (length arts)" "200 < body_length a"
        "scrape_entries w name kw mx (e # es) arts clock =
          scrape_entries w name kw mx es (arts @ [tagged name kw e a]) (Suc clock)"
  proof (cases r)
    case None
    with sa have "scrape_entries w name kw mx (e # es) arts clock =
        (if mx \<le> int (length arts) then (Inr arts, clock)
         else scrape_entries w name kw mx es arts clock)"
      by (simp only: scrape_entries_Cons_None)
    then show ?thesis
      using stop skip by (cases "mx \<le> int (length arts)") simp_all
  next
    case (Some a)
    with sa have "scrape_entries w name kw mx (e # es) arts clock =
       (if mx \<le> int (length arts) then (Inr arts, clock)
        else if ?url = [] then scrape_entries w name kw mx es arts clock
        else if 200 < body_length a
             then scrape_entries w name kw mx es (arts @ [tagged name kw e a]) (Suc clock)
             else scrape_entries w name kw mx es arts (Suc clock))"
      by (simp only: scrape_entries_Cons_Some)
    then show ?thesis
      using stop skip take [of a]
      by (cases "mx \<le> int (length arts)"; cases "?url = []"; cases "200 < body_length a")
         simp_all
  qed
  then show ?case
  proof cases
    case stop
    then show ?thesis by simp
  next
    case (skip c')
    with Cons.IH [of arts c'] show ?thesis by simp
  next
    case (take a)
    from Cons.IH [of "arts @ [tagged name kw e a]" "Suc clock"]
    obtain new where new:
      "fst (scrape_entries w name kw mx es (arts @ [tagged name kw e a]) (Suc clock))
         = Inr ((arts @ [tagged name kw e a]) @ new)"
      "\<forall>a\<in>set new. accepted name a"
      "int (length ((arts @ [tagged name kw e a]) @ new))
         \<le> max mx (int (length (arts @ [tagged name kw e a])))"
      by blast
    have "fst (scrape_entries w name kw mx (e # es) arts clock)
        = Inr (arts @ (tagged name kw e a # new))"
      using take(3) new(1) by simp
    moreover have "\<forall>b\<in>set (tagged name kw e a # new). accepted name b"
      using new(2) take(2) by (simp add: accepted_tagged)
    moreover have "int (length (arts @ (tagged name kw e a # new))) \<le> max mx (int (length arts))"
      using new(3) take(1) by simp
    ultimately show ?thesis
      by blast
  qed
qed

lemma scan_feeds_inv:
  "scan_feeds w name kw mx feeds arts clock = (Inr arts', clock') \<Longrightarrow>
     \<exists>new. arts' = arts @ new \<and> (\<forall>a\<in>set new. accepted name a)
       \<and> int (length arts') \<le> max mx (int (length arts))"
proof (induction feeds arbitrary: arts clock)
  case Nil
  then show ?case by simp
next
  case (Cons f feeds)
  obtain feed_name feed_url where f: "f = (feed_name, feed_url)"
    by (cases f)
  show ?case
  proof (cases "mx \<le> int (length arts)")
    case True
    with Cons.prems f show ?thesis by simp
  next
    case below: False
    from Cons.prems below f obtain entries where fp: "feedparser_parse w feed_url = Inr entries"
      by (cases "feedparser_parse w feed_url") auto
    show ?thesis
    proof (cases "entries = []")
      case True
      with Cons.prems below f fp
      have "scan_feeds w name kw mx feeds arts clock = (Inr arts', clock')"
        by simp
      then show ?thesis by (rule Cons.IH)
    next
      case False
      let ?es = "slice_to (matching_entries (lower kw) entries) (mx - int (length arts))"
      obtain r c where se: "scrape_entries w name kw mx ?es arts clock = (r, c)"
        by (cases "scrape_entries w name kw mx ?es arts clock")
      obtain new where new: "r = Inr (arts @ new)" "\<forall>a\<in>set new. accepted name a"
        "int (length (arts @ new)) \<le> max mx (int (length arts))"
        using scrape_entries_inv [of w name kw mx ?es arts clock] se
        by auto
      have "scan_feeds w name kw mx feeds (arts @ new) c = (Inr arts', clock')"
        using Cons.prems below f fp False se new(1) by simp
      from Cons.IH [OF this] obtain new' where new':
        "arts' = (arts @ new) @ new'" "\<forall>a\<in>set new'. accepted name a"
        "int (length arts') \<le> max mx (int (length (arts @ new)))"
        by blast
      have "arts' = arts @ (new @ new')"
        using new'(1) by simp
      moreover have "\<forall>a\<in>set (new @ new'). accepted name a"
        using new(2) new'(2) by auto
      moreover have "int (length arts') \<le> max mx (int (length arts))"
        using new(3) new'(3) by linarith
      ultimately show ?thesis
        by blast
    qed
  qed
qed

lemma search_sources_blocks:
  "fst (search_sources w kw mx srcs (all_articles, errors, clock))
     = all_articles @ concat (source_blocks w kw mx srcs clock)"
proof (induction srcs arbitrary: all_articles errors clock)
  case Nil
  show ?case by simp
next
  case (Cons s srcs)
  obtain name feeds where s: "s = (name, feeds)"
    by (cases s)
  obtain r c where sf: "scan_feeds w name kw mx feeds [] clock = (r, c)"
    by (cases "scan_feeds w name kw mx feeds [] clock")
  show ?case
    using Cons.IH s sf by (cases r) simp_all
qed

lemma source_blocks_props:
  "list_all2 (\<lambda>src block. (\<forall>a\<in>set block. accepted (fst src) a)
                \<and> int (length block) \<le> max mx 0)
     srcs (source_blocks w kw mx srcs clock)"
proof (induction srcs arbitrary: clock)
  case Nil
  show ?case by simp
next
  case (Cons s srcs)
  obtain name feeds where s: "s = (name, feeds)"
    by (cases s)
  obtain r c where sf: "scan_feeds w name kw mx feeds [] clock = (r, c)"
    by (cases "scan_feeds w name kw mx feeds [] clock")
  show ?case
  proof (cases r)
    case (Inl x)
    with Cons.IH s sf show ?thesis by simp
  next
    case (Inr arts)
    with sf scan_feeds_inv [of w name kw mx feeds "[]" clock arts c]
    have "(\<forall>a\<in>set arts. accepted name a) \<and> int (length arts) \<le> max mx 0"
      by auto
    with Cons.IH s sf Inr show ?thesis by simp
  qed
qed

section \<open>Limits and thresholds of the returned list\<close>

lemma records_of_append [simp]:
  "records_of name (xs @ ys) = records_of name xs @ records_of name ys"
  by (simp add: records_of_def)

lemma records_of_other:
  "\<forall>a\<in>set block. accepted n a \<Longrightarrow> n \<noteq> name \<Longrightarrow> records_of name block = []"
  by (auto simp: records_of_def accepted_def filter_empty_conv)

lemma length_records_of: "length (records_of name block) \<le> length block"
  by (simp add: records_of_def)

lemma records_of_concat_none:
  "list_all2 (\<lambda>src block. (\<forall>a\<in>set block. accepted (fst src) a)
                \<and> int (length block) \<le> max mx 0) srcs blocks
   \<Longrightarrow> name \<notin> fst ` set srcs \<Longrightarrow> records_of name (concat blocks) = []"
proof (induction srcs blocks rule: list_all2_induct)
  case Nil
  show ?case by (simp add: records_of_def)
next
  case (Cons src srcs block blocks)
  then have "records_of name block = []"
    by (intro records_of_other [of block "fst src"]) auto
  with Cons show ?case by simp
qed

lemma records_of_concat_bound:
  "list_all2 (\<lambda>src block. (\<forall>a\<in>set block. accepted (fst src) a)
                \<and> int (length block) \<le> max mx 0) srcs blocks
   \<Longrightarrow> distinct (map fst srcs)
   \<Longrightarrow> int (length (records_of name (concat blocks))) \<le> max mx 0"
proof (induction srcs blocks rule: list_all2_induct)
  case Nil
  show ?case by (simp add: records_of_def)
next
  case (Cons src srcs block blocks)
  show ?case
  proof (cases "fst src = name")
    case True
    with Cons.prems have "name \<notin> fst ` set srcs"
      by auto
    with Cons.hyps(2) have "records_of name (concat blocks) = []"
      by (rule records_of_concat_none)
    moreover have "int (length (records_of name block)) \<le> int (length block)"
      by (simp add: length_records_of)
    ultimately show ?thesis
      using Cons.hyps(1) by simp
  next
    case False
    with Cons.hyps(1) have "records_of name block = []"
      by (intro records_of_other [of block "fst src"]) auto
    with Cons show ?thesis by simp
  qed
qed

lemma length_concat_bound:
  "list_all2 (\<lambda>src block. (\<forall>a\<in>set block. accepted (fst src) a)
                \<and> int (length block) \<le> max mx 0) srcs blocks
   \<Longrightarrow> int (length (concat blocks)) \<le> int (length srcs) * max mx 0"
proof (induction srcs blocks rule: list_all2_induct)
  case Nil
  show ?case by simp
next
  case (Cons src srcs block blocks)
  then show ?case
    by (simp add: algebra_simps)
qed

lemma accepted_concat:
  "list_all2 (\<lambda>src block. (\<forall>a\<in>set block. accepted (fst src) a)
                \<and> int (length block) \<le> max mx 0) srcs blocks
   \<Longrightarrow> a \<in> set (concat blocks) \<Longrightarrow> 200 < body_length a"
  by (induction srcs blocks rule: list_all2_induct) (auto simp: accepted_def)

lemma search_rss_feeds_blocks:
  "search_rss_feeds w kw mx clock = concat (source_blocks w kw mx NEWS_SOURCES clock)"
  by (simp add: search_rss_feeds_def search_sources_blocks)

lemma distinct_NEWS_SOURCES: "distinct (map fst NEWS_SOURCES)"
  by (simp add: NEWS_SOURCES_def)

text \<open>
  C2, as amended. For every source and every integer limit, the records of that source in
  the returned list number at most the limit, or zero when the limit is negative; the
  whole list holds at most that many records per configured source, so none for a limit
  that is not positive.
\<close>

theorem per_source_limit:
  "int (length (records_of name (search_rss_feeds w kw mx clock))) \<le> max mx 0
   \<and> int (length (search_rss_feeds w kw mx clock)) \<le> int (length NEWS_SOURCES) * max mx 0"
  unfolding search_rss_feeds_blocks
  using records_of_concat_bound [OF source_blocks_props distinct_NEWS_SOURCES]
    length_concat_bound [OF source_blocks_props]
  by blast

text \<open>
  C1, as amended. Every returned record has a cleaned body of more than 200 characters.
  In the loop over the selected entries, an article scraped for an entry with a link,
  while the source is below its limit, is appended exactly when its cleaned body has more
  than 200 characters; a body of exactly 200 characters is dropped.
\<close>

theorem accept_threshold:
  "(\<forall>a\<in>set (search_rss_feeds w kw mx clock). 200 < body_length a)
   \<and> (scrape_article w (entry_get e ''link'' []) clock = (Some a, c)
        \<longrightarrow> \<not> mx \<le> int (length arts) \<longrightarrow> entry_get e ''link'' [] \<noteq> []
        \<longrightarrow> scrape_entries w name kw mx [e] arts clock =
              (Inr (if 200 < body_length a then arts @ [tagged name kw e a] else arts), Suc clock))"
proof (intro conjI ballI impI)
  fix b
  assume "b \<in> set (search_rss_feeds w kw mx clock)"
  then show "200 < body_length b"
    unfolding search_rss_feeds_blocks
    using accepted_concat [OF source_blocks_props] by blast
next
  assume "scrape_article w (entry_get e ''link'' []) clock = (Some a, c)"
    "\<not> mx \<le> int (length arts)" "entry_get e ''link'' [] \<noteq> []"
  then show "scrape_entries w name kw mx [e] arts clock =
      (Inr (if 200 < body_length a then arts @ [tagged name kw e a] else arts), Suc clock)"
    by (simp add: scrape_entries_Cons_Some)
qed

section \<open>Failures of feeds and sources, and repeated runs\<close>

lemma scan_feeds_full:
  "mx \<le> int (length arts) \<Longrightarrow> scan_feeds w name kw mx feeds arts clock = (Inr arts, clock)"
  by (cases feeds) auto

lemma search_sources_append:
  "search_sources w kw mx (xs @ ys) st = search_sources w kw mx ys (search_sources w kw mx xs st)"
proof (induction xs arbitrary: st)
  case Nil
  show ?case by simp
next
  case (Cons s xs)
  obtain name feeds where s: "s = (name, feeds)"
    by (cases s)
  obtain all_articles errors clock where st: "st = (all_articles, errors, clock)"
    by (cases st)
  obtain r c where sf: "scan_feeds w name kw mx feeds [] clock = (r, c)"
    by (cases "scan_feeds w name kw mx feeds [] clock")
  show ?case
    using Cons.IH s st sf by (cases r) simp_all
qed

text \<open>
  C7, as amended. A feed that parses to no entries is skipped: the remaining feeds of the
  source are processed with the records gathered so far. An exception raised while a feed
  is fetched, with the source below its limit, ends the processing of the source: its
  remaining feeds are not considered, the records it had gathered are not added to the
  returned list, and the source is reported with an error.
\<close>

theorem feed_failure_scope:
  "(feedparser_parse w feed_url = Inr [] \<longrightarrow>
      scan_feeds w name kw mx ((feed_name, feed_url) # feeds) arts clock =
        scan_feeds w name kw mx feeds arts clock)
   \<and> (feedparser_parse w feed_url = Inl x \<longrightarrow> \<not> mx \<le> int (length arts) \<longrightarrow>
      scan_feeds w name kw mx ((feed_name, feed_url) # feeds) arts clock = (Inl x, clock))
   \<and> (scan_feeds w name kw mx feeds [] clock = (Inl x, clock') \<longrightarrow>
      search_sources w kw mx ((name, feeds) # sources) (all_articles, errors, clock) =
        search_sources w kw mx sources (all_articles, errors @ [name], clock'))"
  by (simp add: scan_feeds_full)

text \<open>
  C8. An exception that leaves the feed loop of one source is caught at that source: the
  records gathered from the sources before it are kept, the source is reported, and the
  sources after it are processed as usual, so that the returned list is the records of
  the sources before it followed by the records of the sources after it.
\<close>

theorem source_failure_isolated:
  "search_sources w kw mx pre st = (all_articles, errors, clock) \<longrightarrow>
   scan_feeds w name kw mx feeds [] clock = (Inl x, clock') \<longrightarrow>
     search_sources w kw mx (pre @ (name, feeds) # post) st =
       search_sources w kw mx post (all_articles, errors @ [name], clock')
     \<and> fst (search_sources w kw mx (pre @ (name, feeds) # post) st) =
       all_articles @ concat (source_blocks w kw mx post clock')"
  by (simp add: search_sources_append search_sources_blocks)

subsection \<open>Two runs on the same feeds and pages\<close>

lemma scrape_article_agree:
  assumes "download_parse w1 = download_parse w2" and "nlp w1 = nlp w2"
  shows "(scrape_article w1 url c1 = (None, c1) \<and> scrape_article w2 url c2 = (None, c2))
    \<or> (\<exists>a1 a2. scrape_article w1 url c1 = (Some a1, Suc c1)
          \<and> scrape_article w2 url c2 = (Some a2, Suc c2)
          \<and> without_time a1 = without_time a2 \<and> body_length a1 = body_length a2)"
  using assms
  by (cases "download_parse w2 url")
     (auto simp: scrape_article_def without_time_def body_length_def Let_def split: prod.splits)

lemma without_time_tagged:
  "without_time (tagged name kw e a) = tagged name kw e (without_time a)"
  by (simp add: without_time_def tagged_def dict_set_def delete_update)

lemma scrape_entries_agree:
  assumes "download_parse w1 = download_parse w2" and "nlp w1 = nlp w2"
  shows "map without_time arts1 = map without_time arts2 \<Longrightarrow>
    \<exists>r1 r2 d1 d2. scrape_entries w1 name kw mx es arts1 c1 = (Inr r1, d1)
      \<and> scrape_entries w2 name kw mx es arts2 c2 = (Inr r2, d2)
      \<and> map without_time r1 = map without_time r2"
proof (induction es arbitrary: arts1 arts2 c1 c2)
  case Nil
  then show ?case by simp
next
  case (Cons e es)
  let ?url = "entry_get e ''link'' []"
  have len: "length arts1 = length arts2"
    using Cons.prems by (rule map_eq_imp_length_eq)
  from scrape_article_agree [OF assms, of ?url c1 c2]
  consider (none) "scrape_article w1 ?url c1 = (None, c1)" "scrape_article w2 ?url c2 = (None, c2)"
    | (some) a1 a2 where "scrape_article w1 ?url c1 = (Some a1, Suc c1)"
        "scrape_article w2 ?url c2 = (Some a2, Suc c2)"
        "without_time a1 = without_time a2" "body_length a1 = body_length a2"
    by blast
  then show ?case
  proof cases
    case none
    show ?thesis
    proof (cases "mx \<le> int (length arts1)")
      case True
      with none len Cons.prems show ?thesis
        by (simp add: scrape_entries_Cons_None)
    next
      case False
      with none len Cons.IH [OF Cons.prems, of c1 c2] show ?thesis
        by (simp add: scrape_entries_Cons_None)
    qed
  next
    case some
    have ext: "map without_time (arts1 @ [tagged name kw e a1])
        = map without_time (arts2 @ [tagged name kw e a2])"
      using Cons.prems some(3) by (simp add: without_time_tagged)
    show ?thesis
    proof (cases "mx \<le> int (length arts1)")
      case True
      with len Cons.prems show ?thesis
        by (simp add: scrape_entries_Cons_Some [OF some(1)] scrape_entries_Cons_Some [OF some(2)])
    next
      case below: False
      show ?thesis
      proof (cases "?url \<noteq> [] \<and> 200 < body_length a1")
        case True
        with below len some(4) Cons.IH [OF ext, of "Suc c1" "Suc c2"] show ?thesis
          by (simp add: scrape_entries_Cons_Some [OF some(1)]
              scrape_entries_Cons_Some [OF some(2)])
      next
        case False
        with below len some(4) Cons.IH [OF Cons.prems, of c1 c2]
          Cons.IH [OF Cons.prems, of "Suc c1" "Suc c2"] show ?thesis
          by (auto simp: scrape_entries_Cons_Some [OF some(1)]
              scrape_entries_Cons_Some [OF some(2)])
      qed
    qed
  qed
qed

lemma scan_feeds_agree:
  assumes "feedparser_parse w1 = feedparser_parse w2"
    and "download_parse w1 = download_parse w2" and "nlp w1 = nlp w2"
  shows "map without_time arts1 = map without_time arts2 \<Longrightarrow>
    map_sum id (map without_time) (fst (scan_feeds w1 name kw mx feeds arts1 c1))
      = map_sum id (map without_time) (fst (scan_feeds w2 name kw mx feeds arts2 c2))"
proof (induction feeds arbitrary: arts1 arts2 c1 c2)
  case Nil
  then show ?case by simp
next
  case (Cons f feeds)
  obtain feed_name feed_url where f: "f = (feed_name, feed_url)"
    by (cases f)
  have len: "length arts1 = length arts2"
    using Cons.prems by (rule map_eq_imp_length_eq)
  show ?case
  proof (cases "mx \<le> int (length arts1)")
    case True
    with len Cons.prems f show ?thesis by simp
  next
    case below: False
    show ?thesis
    proof (cases "feedparser_parse w2 feed_url")
      case (Inl x)
      with below len f assms(1) show ?thesis by simp
    next
      case (Inr entries)
      show ?thesis
      proof (cases "entries = []")
        case True
        with below len f assms(1) Inr Cons.IH [OF Cons.prems, of c1 c2] show ?thesis
          by simp
      next
        case False
        let ?es = "slice_to (matching_entries (lower kw) entries) (mx - int (length arts1))"
        from scrape_entries_agree [OF assms(2,3) Cons.prems, of name kw mx ?es c1 c2]
        obtain r1 r2 d1 d2 where r:
          "scrape_entries w1 name kw mx ?es arts1 c1 = (Inr r1, d1)"
          "scrape_entries w2 name kw mx ?es arts2 c2 = (Inr r2, d2)"
          "map without_time r1 = map without_time r2"
          by blast
        have "scan_feeds w1 name kw mx (f # feeds) arts1 c1 = scan_feeds w1 name kw mx feeds r1 d1"
          using below f assms(1) Inr False r(1) by simp
        moreover have
          "scan_feeds w2 name kw mx (f # feeds) arts2 c2 = scan_feeds w2 name kw mx feeds r2 d2"
          using below len f Inr False r(2) by simp
        ultimately show ?thesis
          using Cons.IH [OF r(3), of d1 d2] by simp
      qed
    qed
  qed
qed

lemma source_blocks_agree:
  assumes "feedparser_parse w1 = feedparser_parse w2"
    and "download_parse w1 = download_parse w2" and "nlp w1 = nlp w2"
  shows "map (map without_time) (source_blocks w1 kw mx srcs c1)
    = map (map without_time) (source_blocks w2 kw mx srcs c2)"
proof (induction srcs arbitrary: c1 c2)
  case Nil
  show ?case by simp
next
  case (Cons s srcs)
  obtain name feeds where s: "s = (name, feeds)"
    by (cases s)
  obtain r1 d1 where sf1: "scan_feeds w1 name kw mx feeds [] c1 = (r1, d1)"
    by (cases "scan_feeds w1 name kw mx feeds [] c1")
  obtain r2 d2 where sf2: "scan_feeds w2 name kw mx feeds [] c2 = (r2, d2)"
    by (cases "scan_feeds w2 name kw mx feeds [] c2")
  have "map_sum id (map without_time) r1 = map_sum id (map without_time) r2"
    using scan_feeds_agree [OF assms, of "[]" "[]" name kw mx feeds c1 c2] sf1 sf2 by simp
  then show ?case
    using s sf1 sf2 Cons.IH [of d1 d2] by (cases r1; cases r2) simp_all
qed

lemma source_blocks_sources:
  "list_all2 (\<lambda>src block. \<forall>a\<in>set block. dict_get a ''source'' PNone = PStr (fst src))
     srcs (source_blocks w kw mx srcs clock)"
  using source_blocks_props [of mx srcs w kw clock]
  by (rule list_all2_mono) (simp add: accepted_def)

text \<open>
  C9, as amended. Two runs with the same keyword and limit, on the same feed contents and
  the same article responses, return lists that are equal once the \<open>scraped_at\<close>
  field, the reading of the clock, is taken out of every record; the clock state at the
  start does not matter. The list is the concatenation, in the order of the configuration,
  of one block per source holding records of that source only, and within a source the
  records accepted earlier stay in front of those accepted later.
\<close>

theorem runs_agree_up_to_time:
  "(feedparser_parse w1 = feedparser_parse w2 \<longrightarrow> download_parse w1 = download_parse w2
      \<longrightarrow> nlp w1 = nlp w2
      \<longrightarrow> map without_time (search_rss_feeds w1 kw mx c1)
            = map without_time (search_rss_feeds w2 kw mx c2))
   \<and> search_rss_feeds w1 kw mx c1 = concat (source_blocks w1 kw mx NEWS_SOURCES c1)
   \<and> list_all2 (\<lambda>src block. \<forall>a\<in>set block. dict_get a ''source'' PNone = PStr (fst src))
        NEWS_SOURCES (source_blocks w1 kw mx NEWS_SOURCES c1)
   \<and> (scan_feeds w1 name kw mx feeds arts c1 = (Inr arts', c1') \<longrightarrow> prefix arts arts')"
proof (intro conjI impI)
  assume "feedparser_parse w1 = feedparser_parse w2" "download_parse w1 = download_parse w2"
    "nlp w1 = nlp w2"
  then have "map (map without_time) (source_blocks w1 kw mx NEWS_SOURCES c1)
      = map (map without_time) (source_blocks w2 kw mx NEWS_SOURCES c2)"
    by (rule source_blocks_agree)
  then show "map without_time (search_rss_feeds w1 kw mx c1)
      = map without_time (search_rss_feeds w2 kw mx c2)"
    by (simp add: search_rss_feeds_blocks map_concat)
next
  show "search_rss_feeds w1 kw mx c1 = concat (source_blocks w1 kw mx NEWS_SOURCES c1)"
    by (rule search_rss_feeds_blocks)
next
  show "list_all2 (\<lambda>src block. \<forall>a\<in>set block. dict_get a ''source'' PNone = PStr (fst src))
        NEWS_SOURCES (source_blocks w1 kw mx NEWS_SOURCES c1)"
    by (rule source_blocks_sources)
next
  assume "scan_feeds w1 name kw mx feeds arts c1 = (Inr arts', c1')"
  then show "prefix arts arts'"
    by (auto dest: scan_feeds_inv)
qed

section \<open>Running the sample environments\<close>

lemma re_sub_first_fails:
  "\<forall>c\<in>set s. \<not> atom_ok a c \<Longrightarrow> re_sub (One a # r) repl s = s"
  by (induction s) auto

lemma x_not_space: "\<not> is_space (CHR ''x'')"
  by (simp add: is_space_def space_chars_def)

lemma lower_x: "lower_char (CHR ''x'') = CHR ''x''"
  by (simp add: lower_char_def upper_chars_def lower_chars_def)

lemma remove_ads_x: "remove_ads (replicate n (CHR ''x'')) = replicate n (CHR ''x'')"
  by (simp add: remove_ads_def ad_patterns_def lit_i_def re_sub_first_fails lower_x
      lower_char_def upper_chars_def lower_chars_def)

lemma strip_x: "strip (replicate n (CHR ''x'')) = replicate n (CHR ''x'')"
proof -
  have "dropWhile is_space (replicate n (CHR ''x'')) = replicate n (CHR ''x'')"
    by (cases n) (simp_all add: x_not_space)
  then show ?thesis
    by (simp add: strip_def lstrip_def rstrip_def)
qed

lemma collapse_x: "collapse_blank_lines (replicate n (CHR ''x'')) = replicate n (CHR ''x'')"
  using collapse_copy [of "replicate n (CHR ''x'')" "[]"] by (simp add: nl_def)

lemma clean_empty:
  "collapse_blank_lines (strip (remove_ads [])) = []"
  by (simp add: remove_ads_def strip_def lstrip_def rstrip_def ad_patterns_def lit_i_def)

lemma scrape_article_sample:
  "scrape_article (sample_world n failing stamp) ''http://example.org/story'' clock
     = (Some (sample_record n stamp), Suc clock)"
  by (simp add: scrape_article_def sample_world_def sample_page_def sample_record_def
      post_process_eq remove_ads_x strip_x collapse_x clean_empty)

lemma body_length_sample: "body_length (sample_record n stamp) = n"
  by (simp add: body_length_def sample_record_def)

lemma feedparser_sample:
  "feedparser_parse (sample_world n failing stamp) url =
     (if url \<in> set failing then Inl (Exception ''URLError'')
      else if url \<in> set [''http://rss.cnn.com/rss/cnn_topstories.rss'',
                           ''http://feeds.bbci.co.uk/news/rss.xml'']
      then Inr [sample_entry] else Inr [])"
  by (simp add: sample_world_def)

lemma sample_link: "entry_get sample_entry ''link'' [] = ''http://example.org/story''"
  by (simp add: sample_entry_def entry_get_def)

lemma sample_matching: "matching_entries (lower ''election'') [sample_entry] = [sample_entry]"
  by code_simp

lemma scrape_entries_sample:
  "scrape_entries (sample_world n failing stamp) name kw mx [sample_entry] arts clock =
     (if mx \<le> int (length arts) then (Inr arts, clock)
      else if 200 < n
        then (Inr (arts @ [tagged name kw sample_entry (sample_record n stamp)]), Suc clock)
        else (Inr arts, Suc clock))"
  using scrape_entries_Cons_Some [of "sample_world n failing stamp" sample_entry clock
      "sample_record n stamp" "Suc clock" name kw mx "[]" arts]
  by (simp add: sample_link scrape_article_sample body_length_sample)

lemma run_201:
  "search_sources (sample_world 201 [] stamp) ''election'' 5 NEWS_SOURCES ([], [], 0) =
     ([tagged ''CNN'' ''election'' sample_entry (sample_record 201 stamp),
       tagged ''BBC News'' ''election'' sample_entry (sample_record 201 stamp)], [], 2)"
  by (simp add: NEWS_SOURCES_def feedparser_sample sample_matching scrape_entries_sample
      slice_to_def)

lemma run_200:
  "search_sources (sample_world 200 [] stamp) ''election'' 5 NEWS_SOURCES ([], [], 0) =
     ([], [], 2)"
  by (simp add: NEWS_SOURCES_def feedparser_sample sample_matching scrape_entries_sample
      slice_to_def)

lemma run_feed_raises:
  "search_sources (sample_world 201 [''http://rss.cnn.com/rss/cnn_world.rss''] stamp)
       ''election'' 5 NEWS_SOURCES ([], [], 0) =
     ([tagged ''BBC News'' ''election'' sample_entry (sample_record 201 stamp)], [''CNN''], 2)"
  by (simp add: NEWS_SOURCES_def feedparser_sample sample_matching scrape_entries_sample
      slice_to_def)

lemma run_negative:
  "search_sources (sample_world 201 [] stamp) ''election'' (- 1) NEWS_SOURCES ([], [], 0) =
     ([], [], 0)"
  by (simp add: NEWS_SOURCES_def)

text \<open>C1 at a body of 201 characters: the record is returned.\<close>

theorem accept_threshold_witness:
  "tagged ''CNN'' ''election'' sample_entry (sample_record 201 ''2024-01-01T00:00:00'')
     \<in> set (search_rss_feeds (sample_world 201 [] ''2024-01-01T00:00:00'') ''election'' 5 0)
   \<and> 200 < body_length
        (tagged ''CNN'' ''election'' sample_entry (sample_record 201 ''2024-01-01T00:00:00''))
   \<and> scrape_article (sample_world 201 [] ''2024-01-01T00:00:00'')
        (entry_get sample_entry ''link'' []) 0
        = (Some (sample_record 201 ''2024-01-01T00:00:00''), 1)
   \<and> \<not> 5 \<le> int (length ([] :: pydict list))
   \<and> entry_get sample_entry ''link'' [] \<noteq> []
   \<and> scrape_entries (sample_world 201 [] ''2024-01-01T00:00:00'') ''CNN'' ''election'' 5
        [sample_entry] [] 0
        = (Inr [tagged ''CNN'' ''election'' sample_entry
                  (sample_record 201 ''2024-01-01T00:00:00'')], 1)"
proof -
  let ?w = "sample_world 201 [] ''2024-01-01T00:00:00''"
  let ?a = "sample_record 201 ''2024-01-01T00:00:00''"
  have sa: "scrape_article ?w (entry_get sample_entry ''link'' []) 0 = (Some ?a, 1)"
    by (simp add: sample_link scrape_article_sample)
  have mem: "tagged ''CNN'' ''election'' sample_entry ?a \<in> set (search_rss_feeds ?w ''election'' 5 0)"
    by (simp add: search_rss_feeds_def run_201)
  have link: "entry_get sample_entry ''link'' [] \<noteq> []"
    by (simp add: sample_link)
  note inst = accept_threshold [where w = ?w and kw = "''election''" and mx = 5 and clock = 0
      and e = sample_entry and a = ?a and c = 1 and arts = "[]" and name = "''CNN''"]
  from inst mem have "200 < body_length (tagged ''CNN'' ''election'' sample_entry ?a)"
    by blast
  moreover from inst sa link have "scrape_entries ?w ''CNN'' ''election'' 5 [sample_entry] [] 0
      = (Inr [tagged ''CNN'' ''election'' sample_entry ?a], 1)"
    by (simp add: body_length_sample)
  ultimately show ?thesis
    using sa mem link by simp
qed

text \<open>
  C1 as stated fails at a body of exactly 200 characters: the entry matches, its article
  is scraped, and nothing is returned.
\<close>

theorem threshold_200_dropped:
  "map_option body_length
     (fst (scrape_article (sample_world 200 [] ''2024-01-01T00:00:00'')
        (entry_get sample_entry ''link'' []) 0)) = Some 200
   \<and> matching_entries (lower ''election'') [sample_entry] = [sample_entry]
   \<and> scrape_entries (sample_world 200 [] ''2024-01-01T00:00:00'') ''CNN'' ''election'' 5
        [sample_entry] [] 0 = (Inr [], 1)
   \<and> search_rss_feeds (sample_world 200 [] ''2024-01-01T00:00:00'') ''election'' 5 0 = []"
  by (simp add: sample_link scrape_article_sample body_length_sample sample_matching
      scrape_entries_sample search_rss_feeds_def run_200)

text \<open>C2 as stated fails at the limit \<open>-1\<close>: no count is at most \<open>-1\<close>.\<close>

theorem negative_limit_counterexample:
  "search_rss_feeds (sample_world 201 [] ''2024-01-01T00:00:00'') ''election'' (- 1) 0 = []
   \<and> \<not> int (length (records_of ''CNN''
           (search_rss_feeds (sample_world 201 [] ''2024-01-01T00:00:00'') ''election'' (- 1) 0)))
         \<le> - 1"
  by (simp add: search_rss_feeds_def run_negative records_of_def)

text \<open>C7 as amended, where the second feed of CNN raises.\<close>

theorem feed_failure_scope_witness:
  "feedparser_parse (sample_world 201 [''http://rss.cnn.com/rss/cnn_world.rss''] ''t'')
       ''https://www.aljazeera.com/xml/rss/all.xml'' = Inr []
   \<and> scan_feeds (sample_world 201 [''http://rss.cnn.com/rss/cnn_world.rss''] ''t'')
       ''Al Jazeera'' ''election'' 5
       [(''rss'', ''https://www.aljazeera.com/xml/rss/all.xml'')] [] 0 = (Inr [], 0)
   \<and> feedparser_parse (sample_world 201 [''http://rss.cnn.com/rss/cnn_world.rss''] ''t'')
       ''http://rss.cnn.com/rss/cnn_world.rss'' = Inl (Exception ''URLError'')
   \<and> \<not> 5 \<le> int (length [tagged ''CNN'' ''election'' sample_entry (sample_record 201 ''t'')])
   \<and> scan_feeds (sample_world 201 [''http://rss.cnn.com/rss/cnn_world.rss''] ''t'')
       ''CNN'' ''election'' 5 [(''world'', ''http://rss.cnn.com/rss/cnn_world.rss'')]
       [tagged ''CNN'' ''election'' sample_entry (sample_record 201 ''t'')] 1
       = (Inl (Exception ''URLError''), 1)
   \<and> scan_feeds (sample_world 201 [''http://rss.cnn.com/rss/cnn_world.rss''] ''t'')
       ''CNN'' ''election'' 5
       [(''rss'', ''http://rss.cnn.com/rss/cnn_topstories.rss''),
        (''world'', ''http://rss.cnn.com/rss/cnn_world.rss'')] [] 0
       = (Inl (Exception ''URLError''), 1)
   \<and> search_sources (sample_world 201 [''http://rss.cnn.com/rss/cnn_world.rss''] ''t'')
       ''election'' 5
       [(''CNN'', [(''rss'', ''http://rss.cnn.com/rss/cnn_topstories.rss''),
                   (''world'', ''http://rss.cnn.com/rss/cnn_world.rss'')])] ([], [], 0)
       = ([], [''CNN''], 1)"
proof -
  let ?w = "sample_world 201 [''http://rss.cnn.com/rss/cnn_world.rss''] ''t''"
  let ?r = "tagged ''CNN'' ''election'' sample_entry (sample_record 201 ''t'')"
  let ?top = "''http://rss.cnn.com/rss/cnn_topstories.rss''"
  let ?world = "''http://rss.cnn.com/rss/cnn_world.rss''"
  let ?aj = "''https://www.aljazeera.com/xml/rss/all.xml''"
  have empty: "feedparser_parse ?w ?aj = Inr []"
    by (simp add: feedparser_sample)
  have raises: "feedparser_parse ?w ?world = Inl (Exception ''URLError'')"
    by (simp add: feedparser_sample)
  have first: "scan_feeds ?w ''CNN'' ''election'' 5 [(''rss'', ?top), (''world'', ?world)] [] 0
      = scan_feeds ?w ''CNN'' ''election'' 5 [(''world'', ?world)] [?r] 1"
    by (simp add: feedparser_sample sample_matching scrape_entries_sample slice_to_def)
  have a: "scan_feeds ?w ''Al Jazeera'' ''election'' 5 [(''rss'', ?aj)] [] 0 = (Inr [], 0)"
    using feed_failure_scope [where w = ?w and feed_url = ?aj and name = "''Al Jazeera''"
        and kw = "''election''" and mx = 5 and feed_name = "''rss''" and feeds = "[]"
        and arts = "[]" and clock = 0] empty
    by simp
  have b: "scan_feeds ?w ''CNN'' ''election'' 5 [(''world'', ?world)] [?r] 1
      = (Inl (Exception ''URLError''), 1)"
    using feed_failure_scope [where w = ?w and feed_url = ?world and name = "''CNN''"
        and kw = "''election''" and mx = 5 and feed_name = "''world''" and feeds = "[]"
        and arts = "[?r]" and clock = 1 and x = "Exception ''URLError''"] raises
    by simp
  have c: "search_sources ?w ''election'' 5 [(''CNN'', [(''rss'', ?top), (''world'', ?world)])]
      ([], [], 0) = ([], [''CNN''], 1)"
    using feed_failure_scope [where w = ?w and name = "''CNN''" and kw = "''election''"
        and mx = 5 and feeds = "[(''rss'', ?top), (''world'', ?world)]" and clock = 0
        and x = "Exception ''URLError''" and clock' = 1 and sources = "[]"
        and all_articles = "[]" and errors = "[]"] first b
    by simp
  show ?thesis
    using empty raises a b c first by simp
qed

text \<open>
  C7 as stated fails there: the first feed of CNN alone yields a record, the second feed
  raises, and the returned list holds no record of CNN, which is reported with an error.
\<close>

theorem later_feed_failure_discards:
  "scan_feeds (sample_world 201 [''http://rss.cnn.com/rss/cnn_world.rss''] ''t'')
       ''CNN'' ''election'' 5 [(''rss'', ''http://rss.cnn.com/rss/cnn_topstories.rss'')] [] 0
     = (Inr [tagged ''CNN'' ''election'' sample_entry (sample_record 201 ''t'')], 1)
   \<and> feedparser_parse (sample_world 201 [''http://rss.cnn.com/rss/cnn_world.rss''] ''t'')
       ''http://rss.cnn.com/rss/cnn_world.rss'' = Inl (Exception ''URLError'')
   \<and> records_of ''CNN''
       (search_rss_feeds (sample_world 201 [''http://rss.cnn.com/rss/cnn_world.rss''] ''t'')
          ''election'' 5 0) = []
   \<and> fst (snd (search_sources
         (sample_world 201 [''http://rss.cnn.com/rss/cnn_world.rss''] ''t'')
         ''election'' 5 NEWS_SOURCES ([], [], 0))) = [''CNN'']"
  by (simp add: feedparser_sample sample_matching scrape_entries_sample slice_to_def
      search_rss_feeds_def run_feed_raises records_of_def tagged_source)

text \<open>C8 where the first feed of BBC News raises: the record of CNN is returned.\<close>

theorem source_failure_isolated_witness:
  "search_sources (sample_world 201 [''http://feeds.bbci.co.uk/news/rss.xml''] ''t'')
      ''election'' 5 (take 1 NEWS_SOURCES) ([], [], 0)
     = ([tagged ''CNN'' ''election'' sample_entry (sample_record 201 ''t'')], [], 1)
   \<and> scan_feeds (sample_world 201 [''http://feeds.bbci.co.uk/news/rss.xml''] ''t'')
      ''BBC News'' ''election'' 5
      [(''rss'', ''http://feeds.bbci.co.uk/news/rss.xml''),
       (''world'', ''http://feeds.bbci.co.uk/news/world/rss.xml'')] [] 1
     = (Inl (Exception ''URLError''), 1)
   \<and> fst (search_sources (sample_world 201 [''http://feeds.bbci.co.uk/news/rss.xml''] ''t'')
      ''election'' 5 NEWS_SOURCES ([], [], 0))
     = [tagged ''CNN'' ''election'' sample_entry (sample_record 201 ''t'')]
         @ concat (source_blocks
             (sample_world 201 [''http://feeds.bbci.co.uk/news/rss.xml''] ''t'')
             ''election'' 5 (drop 2 NEWS_SOURCES) 1)"
proof -
  let ?w = "sample_world 201 [''http://feeds.bbci.co.uk/news/rss.xml''] ''t''"
  let ?bbc = "[(''rss'', ''http://feeds.bbci.co.uk/news/rss.xml''),
       (''world'', ''http://feeds.bbci.co.uk/news/world/rss.xml'')]"
  have pre: "search_sources ?w ''election'' 5 (take 1 NEWS_SOURCES) ([], [], 0)
      = ([tagged ''CNN'' ''election'' sample_entry (sample_record 201 ''t'')], [], 1)"
    by (simp add: NEWS_SOURCES_def feedparser_sample sample_matching scrape_entries_sample
        slice_to_def)
  have fails: "scan_feeds ?w ''BBC News'' ''election'' 5 ?bbc [] 1
      = (Inl (Exception ''URLError''), 1)"
    by (simp add: feedparser_sample)
  have split: "NEWS_SOURCES = take 1 NEWS_SOURCES @ (''BBC News'', ?bbc) # drop 2 NEWS_SOURCES"
    by (simp add: NEWS_SOURCES_def)
  have "fst (search_sources ?w ''election'' 5
        (take 1 NEWS_SOURCES @ (''BBC News'', ?bbc) # drop 2 NEWS_SOURCES) ([], [], 0))
      = [tagged ''CNN'' ''election'' sample_entry (sample_record 201 ''t'')]
          @ concat (source_blocks ?w ''election'' 5 (drop 2 NEWS_SOURCES) 1)"
    using source_failure_isolated [where w = ?w and kw = "''election''" and mx = 5
        and pre = "take 1 NEWS_SOURCES" and st = "([], [], 0)" and name = "''BBC News''"
        and feeds = ?bbc and post = "drop 2 NEWS_SOURCES" and clock = 1 and clock' = 1
        and x = "Exception ''URLError''" and errors = "[]"
        and all_articles = "[tagged ''CNN'' ''election'' sample_entry (sample_record 201 ''t'')]"]
      pre fails
    by blast
  with pre fails show ?thesis
    using split by simp
qed

text \<open>
  C9 as stated fails for two runs on the same feeds and pages whose clocks read
  differently: the returned lists differ in \<open>scraped_at\<close>.
\<close>

theorem timestamps_differ:
  "feedparser_parse (sample_world 201 [] ''2024-01-01T00:00:00'')
     = feedparser_parse (sample_world 201 [] ''2024-01-02T00:00:00'')
   \<and> download_parse (sample_world 201 [] ''2024-01-01T00:00:00'')
     = download_parse (sample_world 201 [] ''2024-01-02T00:00:00'')
   \<and> nlp (sample_world 201 [] ''2024-01-01T00:00:00'')
     = nlp (sample_world 201 [] ''2024-01-02T00:00:00'')
   \<and> search_rss_feeds (sample_world 201 [] ''2024-01-01T00:00:00'') ''election'' 5 0
     \<noteq> search_rss_feeds (sample_world 201 [] ''2024-01-02T00:00:00'') ''election'' 5 0"
proof -
  have "search_rss_feeds (sample_world 201 [] ''2024-01-01T00:00:00'') ''election'' 5 0
     \<noteq> search_rss_feeds (sample_world 201 [] ''2024-01-02T00:00:00'') ''election'' 5 0"
    by (simp add: search_rss_feeds_def run_201 tagged_def dict_set_def sample_record_def)
  then show ?thesis
    by (simp add: sample_world_def)
qed

lemma blocks_201:
  "source_blocks (sample_world 201 [] stamp) ''election'' 5 NEWS_SOURCES 0 =
     [[tagged ''CNN'' ''election'' sample_entry (sample_record 201 stamp)],
      [tagged ''BBC News'' ''election'' sample_entry (sample_record 201 stamp)], [], [], []]"
  by (simp add: NEWS_SOURCES_def feedparser_sample sample_matching scrape_entries_sample
      slice_to_def)

text \<open>C9 as amended, at two runs whose clocks read differently.\<close>

theorem runs_agree_up_to_time_witness:
  "feedparser_parse (sample_world 201 [] ''2024-01-01T00:00:00'')
     = feedparser_parse (sample_world 201 [] ''2024-01-02T00:00:00'')
   \<and> download_parse (sample_world 201 [] ''2024-01-01T00:00:00'')
     = download_parse (sample_world 201 [] ''2024-01-02T00:00:00'')
   \<and> nlp (sample_world 201 [] ''2024-01-01T00:00:00'')
     = nlp (sample_world 201 [] ''2024-01-02T00:00:00'')
   \<and> map without_time
        (search_rss_feeds (sample_world 201 [] ''2024-01-01T00:00:00'') ''election'' 5 0)
     = map without_time
        (search_rss_feeds (sample_world 201 [] ''2024-01-02T00:00:00'') ''election'' 5 7)
   \<and> search_rss_feeds (sample_world 201 [] ''2024-01-01T00:00:00'') ''election'' 5 0
     = [tagged ''CNN'' ''election'' sample_entry (sample_record 201 ''2024-01-01T00:00:00''),
        tagged ''BBC News'' ''election'' sample_entry (sample_record 201 ''2024-01-01T00:00:00'')]
   \<and> dict_get (tagged ''CNN'' ''election'' sample_entry (sample_record 201 ''2024-01-01T00:00:00''))
        ''source'' PNone = PStr ''CNN''
   \<and> scan_feeds (sample_world 201 [] ''2024-01-01T00:00:00'') ''BBC News'' ''election'' 5
        [(''rss'', ''http://feeds.bbci.co.uk/news/rss.xml'')]
        [tagged ''CNN'' ''election'' sample_entry (sample_record 201 ''2024-01-01T00:00:00'')] 1
     = (Inr [tagged ''CNN'' ''election'' sample_entry (sample_record 201 ''2024-01-01T00:00:00''),
             tagged ''BBC News'' ''election'' sample_entry
               (sample_record 201 ''2024-01-01T00:00:00'')], 2)
   \<and> prefix [tagged ''CNN'' ''election'' sample_entry (sample_record 201 ''2024-01-01T00:00:00'')]
        [tagged ''CNN'' ''election'' sample_entry (sample_record 201 ''2024-01-01T00:00:00''),
         tagged ''BBC News'' ''election'' sample_entry (sample_record 201 ''2024-01-01T00:00:00'')]"
proof -
  let ?w1 = "sample_world 201 [] ''2024-01-01T00:00:00''"
  let ?w2 = "sample_world 201 [] ''2024-01-02T00:00:00''"
  let ?cnn = "tagged ''CNN'' ''election'' sample_entry (sample_record 201 ''2024-01-01T00:00:00'')"
  let ?bbc = "tagged ''BBC News'' ''election'' sample_entry
      (sample_record 201 ''2024-01-01T00:00:00'')"
  have same: "feedparser_parse ?w1 = feedparser_parse ?w2" "download_parse ?w1 = download_parse ?w2"
    "nlp ?w1 = nlp ?w2"
    by (simp_all add: sample_world_def)
  have sf: "scan_feeds ?w1 ''BBC News'' ''election'' 5
      [(''rss'', ''http://feeds.bbci.co.uk/news/rss.xml'')] [?cnn] 1 = (Inr [?cnn, ?bbc], 2)"
    by (simp add: feedparser_sample sample_matching scrape_entries_sample slice_to_def)
  note inst = runs_agree_up_to_time [where ?w1.0 = ?w1 and ?w2.0 = ?w2 and kw = "''election''"
      and mx = 5 and ?c1.0 = 0 and ?c2.0 = 7 and name = "''BBC News''"
      and feeds = "[(''rss'', ''http://feeds.bbci.co.uk/news/rss.xml'')]" and arts = "[?cnn]"
      and arts' = "[?cnn, ?bbc]" and ?c1'.0 = 2]
  have agree: "map without_time (search_rss_feeds ?w1 ''election'' 5 0)
      = map without_time (search_rss_feeds ?w2 ''election'' 5 7)"
    using inst same by blast
  have run: "search_rss_feeds ?w1 ''election'' 5 0 = [?cnn, ?bbc]"
    using inst by (simp add: blocks_201)
  have src: "dict_get ?cnn ''source'' PNone = PStr ''CNN''"
    using inst [THEN conjunct2, THEN conjunct2, THEN conjunct1, unfolded blocks_201]
    by (simp add: NEWS_SOURCES_def)
  show ?thesis
    using same agree run src sf by simp
qed

end
